theory Spec2Isabelle
  imports Complex_Main
begin

section \<open>QuantFlow frontend: order book replica, metrics and message buffer\<close>

text \<open>
  The development embeds the two React hooks of the frontend:
  \<^item> \<^verbatim>\<open>useOrderbook\<close> (src/frontend/hooks/useOrderbook.ts): the effect that applies the last
    message to the book and records a latency sample, the derived values
    \<^verbatim>\<open>spread\<close> and \<^verbatim>\<open>latencyMs\<close>, and what the hook returns once a new message has
    been rendered and applied;
  \<^item> \<^verbatim>\<open>useWebSocket\<close>: the \<^verbatim>\<open>onmessage\<close> handler that appends to the message array.

  The prices and quantities of a level are the finite doubles that \<^verbatim>\<open>JSON.parse\<close> delivers,
  held as the \<^typ>\<open>real\<close> numbers they denote; comparing two of them and the sign of
  their difference are then exact. Where the source computes a value that it returns
  (\<^verbatim>\<open>spread\<close>, \<^verbatim>\<open>latencyMs\<close>), the arithmetic is that of IEEE 754 binary64: every operation
  is rounded to the nearest double, ties to even, with overflow to an infinity. The two
  zeros are not told apart. Millisecond timestamps and \<^verbatim>\<open>update_type\<close> are integers
  (\<^typ>\<open>int\<close>), and a latency sample, the difference of two timestamps, is held exactly.
  \<^verbatim>\<open>Date.now()\<close> is a parameter of the effect.
\<close>

subsection \<open>Data model\<close>

text \<open>A level is the pair \<^verbatim>\<open>[number, number]\<close>: price, then quantity.\<close>

type_synonym Level = "real \<times> real"

text \<open>\<^verbatim>\<open>type Book = { bids, asks, lastSeq? }\<close>\<close>

record Book =
  bids :: "Level list"
  asks :: "Level list"
  lastSeq :: "int option"

text \<open>
  \<^verbatim>\<open>type WsMsg = SnapshotMsg | IncrementalMsg\<close>, a union tagged by \<^verbatim>\<open>type\<close>. The fields
  \<^verbatim>\<open>bids\<close> and \<^verbatim>\<open>asks\<close> of a snapshot are named \<open>msg_bids\<close> and \<open>msg_asks\<close> here, the
  plain names being the fields of \<^typ>\<open>Book\<close>.
\<close>

datatype WsMsg =
    Snapshot (instrument_id: int) (timestamp: int)
      (msg_bids: "Level list") (msg_asks: "Level list")
      (gateway_ts: "int option") (seq: "int option")
  | Incremental (instrument_id: int) (timestamp: int)
      (is_bid: bool) (update_type: int) (level: Level)
      (gateway_ts: "int option") (seq: "int option")

text \<open>The state the hook \<^verbatim>\<open>useOrderbook\<close> keeps: \<^verbatim>\<open>book\<close>, and the refs \<^verbatim>\<open>latency\<close>, \<^verbatim>\<open>dropped\<close>.\<close>

record Hook =
  book :: Book
  latency :: "int list"
  dropped :: nat

definition initial :: Hook where
  "initial = \<lparr>book = \<lparr>bids = [], asks = [], lastSeq = None\<rparr>, latency = [], dropped = 0\<rparr>"

subsection \<open>Numbers of the source\<close>

text \<open>A JavaScript number: a finite double, an infinity, or NaN.\<close>

datatype number = Finite real | PosInf | NegInf | NaN

text \<open>The integer nearest to \<open>y\<close>; of two equally near, the even one.\<close>

definition round_half_even :: "real \<Rightarrow> int" where
  "round_half_even y =
     (let f = \<lfloor>y\<rfloor>; d = y - of_int f in
      if d < 1 / 2 then f else if 1 / 2 < d then f + 1 else if even f then f else f + 1)"

text \<open>
  The doubles around a real \<open>x\<close> are the multiples of \<open>2 powi k\<close>, where \<open>k\<close> is the least
  exponent from \<open>-1074\<close> on with \<open>\<bar>x\<bar> < 2 powi (k + 53)\<close>, and at most \<open>971\<close>:
  \<open>-1074\<close> for the subnormal numbers and the first binade of the normal ones, \<open>971\<close> for
  the last binade. \<open>quantum n k a\<close> searches upwards from \<open>k\<close> in at most \<open>n\<close> steps.
\<close>

fun quantum :: "nat \<Rightarrow> int \<Rightarrow> real \<Rightarrow> int" where
  "quantum 0 qe a = qe"
| "quantum (Suc n) qe a = (if a < 2 powi (qe + 53) then qe else quantum n (qe + 1) a)"

text \<open>
  Rounding a real to binary64, to nearest and ties to even: the nearest multiple of
  the quantum, and an infinity when that reaches \<open>2 powi 1024\<close>.
\<close>

definition to_double :: "real \<Rightarrow> number" where
  "to_double x =
     (let q = 2 powi (quantum 2045 (- 1074) \<bar>x\<bar>);
          r = of_int (round_half_even (x / q)) * q
      in if 2 powi 1024 \<le> \<bar>r\<bar> then (if 0 < x then PosInf else NegInf) else Finite r)"

text \<open>
  \<^verbatim>\<open>a + b\<close>, \<^verbatim>\<open>-a\<close>, \<^verbatim>\<open>a - b\<close>, \<^verbatim>\<open>a / b\<close> on numbers: the exact result of finite operands,
  rounded; the IEEE rules for infinities and NaN.
\<close>

fun d_add :: "number \<Rightarrow> number \<Rightarrow> number" where
  "d_add NaN b = NaN"
| "d_add a NaN = NaN"
| "d_add (Finite x) (Finite y) = to_double (x + y)"
| "d_add PosInf NegInf = NaN"
| "d_add NegInf PosInf = NaN"
| "d_add PosInf b = PosInf"
| "d_add NegInf b = NegInf"
| "d_add a PosInf = PosInf"
| "d_add a NegInf = NegInf"

fun d_neg :: "number \<Rightarrow> number" where
  "d_neg (Finite x) = Finite (- x)"
| "d_neg PosInf = NegInf"
| "d_neg NegInf = PosInf"
| "d_neg NaN = NaN"

definition d_sub :: "number \<Rightarrow> number \<Rightarrow> number" where
  "d_sub a b = d_add a (d_neg b)"

fun d_div :: "number \<Rightarrow> number \<Rightarrow> number" where
  "d_div NaN b = NaN"
| "d_div a NaN = NaN"
| "d_div (Finite x) (Finite y) =
     (if y = 0 then (if x = 0 then NaN else if 0 < x then PosInf else NegInf)
      else to_double (x / y))"
| "d_div (Finite x) b = Finite 0"
| "d_div PosInf (Finite y) = (if 0 \<le> y then PosInf else NegInf)"
| "d_div NegInf (Finite y) = (if 0 \<le> y then NegInf else PosInf)"
| "d_div a b = NaN"

text \<open>
  \<^verbatim>\<open>Math.round(a)\<close>: the nearest integer, a half upwards; exact on a finite double.
\<close>

fun math_round :: "number \<Rightarrow> number" where
  "math_round (Finite x) = Finite (of_int \<lfloor>x + 1 / 2\<rfloor>)"
| "math_round a = a"

text \<open>A real is a double when rounding leaves it as it is.\<close>

definition is_double :: "real \<Rightarrow> bool" where
  "is_double x = (to_double x = Finite x)"

subsection \<open>Array operations of the source\<close>

text \<open>\<^verbatim>\<open>arr.findIndex(pred)\<close>: the first index whose element satisfies \<open>pred\<close>, else \<open>-1\<close>.\<close>

fun findIndex :: "('a \<Rightarrow> bool) \<Rightarrow> 'a list \<Rightarrow> int" where
  "findIndex P [] = -1"
| "findIndex P (x # xs) =
     (if P x then 0 else (let i = findIndex P xs in if i < 0 then -1 else i + 1))"

text \<open>
  \<^verbatim>\<open>arr.sort(cmp)\<close>: a stable sort; \<open>a\<close> stays before \<open>b\<close> unless \<open>cmp a b > 0\<close>.
  For a consistent comparator every stable sort gives the same array; this one inserts
  from the right.
\<close>

fun insert_cmp :: "('a \<Rightarrow> 'a \<Rightarrow> real) \<Rightarrow> 'a \<Rightarrow> 'a list \<Rightarrow> 'a list" where
  "insert_cmp cmp x [] = [x]"
| "insert_cmp cmp x (y # ys) = (if cmp x y \<le> 0 then x # y # ys else y # insert_cmp cmp x ys)"

definition sort_cmp :: "('a \<Rightarrow> 'a \<Rightarrow> real) \<Rightarrow> 'a list \<Rightarrow> 'a list" where
  "sort_cmp cmp xs = foldr (insert_cmp cmp) xs []"

text \<open>\<^verbatim>\<open>arr.slice(0, n)\<close> is \<^term>\<open>take n arr\<close>; \<^verbatim>\<open>arr.slice(-n)\<close> keeps the last \<open>n\<close> elements.\<close>

definition slice_last :: "nat \<Rightarrow> 'a list \<Rightarrow> 'a list" where
  "slice_last n xs = drop (length xs - n) xs"

subsection \<open>useOrderbook\<close>

text \<open>The comparator \<^verbatim>\<open>(a, b) => last.is_bid ? b[0] - a[0] : a[0] - b[0]\<close>.\<close>

definition side_cmp :: "bool \<Rightarrow> Level \<Rightarrow> Level \<Rightarrow> real" where
  "side_cmp isb a b = (if isb then fst b - fst a else fst a - fst b)"

text \<open>
  The body of \<^verbatim>\<open>setBook(prev => ...)\<close> up to the sort: the copy of the side after the
  branch on \<^verbatim>\<open>update_type\<close>.
\<close>

definition update_arr :: "int \<Rightarrow> Level \<Rightarrow> Level list \<Rightarrow> Level list" where
  "update_arr ut lv arr =
     (let price = fst lv; qty = snd lv in
      if ut = 0 \<or> ut = 2 then
        (let i = findIndex (\<lambda>l. fst l = price) arr in
         if i \<ge> 0 then arr[nat i := (price, qty)] else arr @ [(price, qty)])
      else if ut = 1 then filter (\<lambda>l. fst l \<noteq> price) arr
      else arr)"

text \<open>The new content of the side: updated, sorted, \<^verbatim>\<open>slice(0, 50)\<close>.\<close>

definition next_side :: "bool \<Rightarrow> int \<Rightarrow> Level \<Rightarrow> Level list \<Rightarrow> Level list" where
  "next_side isb ut lv arr = take 50 (sort_cmp (side_cmp isb) (update_arr ut lv arr))"

text \<open>
  \<^verbatim>\<open>const side = last.is_bid ? "bids" : "asks"\<close>: reading \<^verbatim>\<open>next[side]\<close> and assigning to it.
\<close>

definition get_side :: "bool \<Rightarrow> Book \<Rightarrow> Level list" where
  "get_side isb b = (if isb then bids b else asks b)"

definition set_side :: "bool \<Rightarrow> Level list \<Rightarrow> Book \<Rightarrow> Book" where
  "set_side isb arr b = (if isb then b\<lparr>bids := arr\<rparr> else b\<lparr>asks := arr\<rparr>)"

definition setBook_incremental :: "bool \<Rightarrow> int \<Rightarrow> Level \<Rightarrow> Book \<Rightarrow> Book" where
  "setBook_incremental isb ut lv prev =
     set_side isb (next_side isb ut lv (get_side isb prev)) prev"

text \<open>
  \<^verbatim>\<open>latency.current.push(Date.now() - last.timestamp);
  if (latency.current.length > 200) latency.current.shift();\<close>
\<close>

definition recordLatency :: "int \<Rightarrow> int list \<Rightarrow> int list" where
  "recordLatency ms lat = (let l = lat @ [ms] in if length l > 200 then tl l else l)"

text \<open>The effect for a given last message; \<open>now\<close> is \<^verbatim>\<open>Date.now()\<close>.\<close>

fun apply_last :: "int \<Rightarrow> WsMsg \<Rightarrow> Hook \<Rightarrow> Hook" where
  "apply_last now (Snapshot iid ts bs as gts sq) st =
     st\<lparr>latency := recordLatency (now - ts) (latency st),
        book := \<lparr>bids = bs, asks = as, lastSeq = None\<rparr>\<rparr>"
| "apply_last now (Incremental iid ts isb ut lv gts sq) st =
     st\<lparr>latency := recordLatency (now - ts) (latency st),
        book := setBook_incremental isb ut lv (book st)\<rparr>"

text \<open>The effect of \<^verbatim>\<open>useOrderbook\<close>, run when \<^verbatim>\<open>messages\<close> changes.\<close>

definition useOrderbook_effect :: "int \<Rightarrow> WsMsg list \<Rightarrow> Hook \<Rightarrow> Hook" where
  "useOrderbook_effect now messages st =
     (if length messages = 0 then st else apply_last now (last messages) st)"

text \<open>
  Messages applied one after the other, each with the time at which its effect runs.
\<close>

definition run :: "Hook \<Rightarrow> (int \<times> WsMsg) list \<Rightarrow> Hook" where
  "run st evs = foldl (\<lambda>s e. apply_last (fst e) (snd e) s) st evs"

text \<open>
  The memo \<^verbatim>\<open>spread\<close>: \<^verbatim>\<open>{ value: bestAsk - bestBid, mid: (bestAsk + bestBid) / 2 }\<close> or
  \<^verbatim>\<open>null\<close>; \<^verbatim>\<open>book.bids[0]?.[0]\<close> is the price of the first level, if there is one.
\<close>

record Spread =
  val :: number
  mid :: number

definition first_price :: "Level list \<Rightarrow> real option" where
  "first_price ls = (case ls of [] \<Rightarrow> None | l # _ \<Rightarrow> Some (fst l))"

definition spread :: "Book \<Rightarrow> Spread option" where
  "spread b =
     (let bestBid = first_price (bids b); bestAsk = first_price (asks b) in
      if bestBid = None \<or> bestAsk = None then None
      else Some \<lparr>val = d_sub (Finite (the bestAsk)) (Finite (the bestBid)),
                  mid = d_div (d_add (Finite (the bestAsk)) (Finite (the bestBid))) (Finite 2)\<rparr>)"

text \<open>
  The callback of the memo \<^verbatim>\<open>latencyMs\<close>, on the array it reads from \<^verbatim>\<open>latency.current\<close>:
  \<^verbatim>\<open>Math.round(arr.reduce((a, b) => a + b, 0) / arr.length)\<close>, or 0 on the empty array.
\<close>

definition latencyMs :: "int list \<Rightarrow> number" where
  "latencyMs arr =
     (if length arr = 0 then Finite 0
      else math_round
             (d_div (foldl (\<lambda>a b. d_add a (Finite (of_int b))) (Finite 0) arr)
                    (Finite (of_nat (length arr)))))"

text \<open>
  What the hook returns for a new \<^verbatim>\<open>messages\<close> array:
  \<^verbatim>\<open>{ book, spread, latencyMs, dropped: dropped.current }\<close>. The order of evaluation is
  that of React. The render for the new array comes first, and in it the memo
  \<^verbatim>\<open>latencyMs\<close>, keyed on \<^verbatim>\<open>[messages]\<close>, runs its callback on the window as it is then. The
  effect runs after that render: it pushes the sample and calls \<^verbatim>\<open>setBook\<close>. The render
  that \<^verbatim>\<open>setBook\<close> causes has the same \<^verbatim>\<open>messages\<close>, so the memo \<^verbatim>\<open>latencyMs\<close> keeps its
  value, while the memo \<^verbatim>\<open>spread\<close>, keyed on \<^verbatim>\<open>[book]\<close>, is computed from the new book.
\<close>

record HookResult =
  ret_book :: Book
  ret_spread :: "Spread option"
  ret_latencyMs :: number
  ret_dropped :: nat

definition useOrderbook :: "int \<Rightarrow> WsMsg list \<Rightarrow> Hook \<Rightarrow> Hook \<times> HookResult" where
  "useOrderbook now messages st =
     (let memo = latencyMs (latency st);
          st' = useOrderbook_effect now messages st
      in (st', \<lparr>ret_book = book st', ret_spread = spread (book st'),
                 ret_latencyMs = memo, ret_dropped = dropped st'\<rparr>))"

subsection \<open>useWebSocket and the page\<close>

text \<open>
  \<^verbatim>\<open>setMessages((prev) =>
     prev.length > 1000 ? prev.slice(-800).concat(data) : prev.concat(data))\<close>
\<close>

definition onmessage :: "WsMsg list \<Rightarrow> WsMsg \<Rightarrow> WsMsg list" where
  "onmessage prev data =
     (if length prev > 1000 then slice_last 800 prev @ [data] else prev @ [data])"

text \<open>
  The page passes the array of \<^verbatim>\<open>useWebSocket\<close> to \<^verbatim>\<open>useOrderbook\<close>: an arriving message
  updates the array, and the effect then runs on the new array.
\<close>

definition deliver :: "int \<Rightarrow> WsMsg \<Rightarrow> WsMsg list \<times> Hook \<Rightarrow> WsMsg list \<times> Hook" where
  "deliver now data s =
     (let messages = onmessage (fst s) data in (messages, useOrderbook_effect now messages (snd s)))"

subsection \<open>Predicates of the claims\<close>

text \<open>
  Strict order by price of one side, the order the comparator of the sort accepts
  (equal prices allowed), and what a sequence of messages has to satisfy for the
  invariants: the levels a Snapshot carries.
\<close>

definition strictly_descending :: "Level list \<Rightarrow> bool" where
  "strictly_descending ls = sorted_wrt (\<lambda>a b. fst a > fst b) ls"

definition strictly_ascending :: "Level list \<Rightarrow> bool" where
  "strictly_ascending ls = sorted_wrt (\<lambda>a b. fst a < fst b) ls"

definition strictly_ordered :: "bool \<Rightarrow> Level list \<Rightarrow> bool" where
  "strictly_ordered isb ls = (if isb then strictly_descending ls else strictly_ascending ls)"

definition in_side_order :: "bool \<Rightarrow> Level list \<Rightarrow> bool" where
  "in_side_order isb ls = sorted_wrt (\<lambda>a b. side_cmp isb a b \<le> 0) ls"

fun snapshot_levels_ordered :: "WsMsg \<Rightarrow> bool" where
  "snapshot_levels_ordered (Snapshot iid ts bs as gts sq) =
     (strictly_descending bs \<and> strictly_ascending as)"
| "snapshot_levels_ordered (Incremental iid ts isb ut lv gts sq) = True"

fun snapshot_within_depth :: "WsMsg \<Rightarrow> bool" where
  "snapshot_within_depth (Snapshot iid ts bs as gts sq) = (length bs \<le> 50 \<and> length as \<le> 50)"
| "snapshot_within_depth (Incremental iid ts isb ut lv gts sq) = True"

section \<open>Properties of the array operations and of one update\<close>

lemma findIndex_ge: "- 1 \<le> findIndex P xs"
  by (induction xs) (auto simp: Let_def)

lemma findIndex_neg_iff: "findIndex P xs < 0 \<longleftrightarrow> (\<forall>x \<in> set xs. \<not> P x)"
  using findIndex_ge [of P] by (induction xs) (auto simp: Let_def)

lemma findIndex_found:
  "0 \<le> findIndex P xs \<Longrightarrow> nat (findIndex P xs) < length xs \<and> P (xs ! nat (findIndex P xs))"
proof (induction xs)
  case Nil
  then show ?case by simp
next
  case (Cons x xs)
  show ?case
  proof (cases "P x")
    case True
    then show ?thesis by simp
  next
    case False
    with Cons.prems have nn: "0 \<le> findIndex P xs"
      by (simp add: Let_def split: if_splits)
    from Cons.IH [OF nn] False nn show ?thesis
      by (simp add: Let_def nat_add_distrib)
  qed
qed

lemma set_insert_cmp: "set (insert_cmp cmp x xs) = insert x (set xs)"
  by (induction xs) auto

lemma length_insert_cmp: "length (insert_cmp cmp x xs) = Suc (length xs)"
  by (induction xs) auto

lemma set_sort_cmp: "set (sort_cmp cmp xs) = set xs"
  by (induction xs) (simp_all add: sort_cmp_def set_insert_cmp)

lemma length_sort_cmp: "length (sort_cmp cmp xs) = length xs"
  by (induction xs) (simp_all add: sort_cmp_def length_insert_cmp)

lemma distinct_prices_insert_cmp:
  "distinct (map fst (insert_cmp cmp x xs)) \<longleftrightarrow> fst x \<notin> fst ` set xs \<and> distinct (map fst xs)"
  by (induction xs) (auto simp: set_insert_cmp)

lemma distinct_prices_sort_cmp:
  "distinct (map fst (sort_cmp cmp xs)) \<longleftrightarrow> distinct (map fst xs)"
  by (induction xs) (simp_all add: sort_cmp_def distinct_prices_insert_cmp set_sort_cmp [unfolded sort_cmp_def])

lemma sort_cmp_sorted_id:
  "sorted_wrt (\<lambda>a b. cmp a b \<le> 0) xs \<Longrightarrow> sort_cmp cmp xs = xs"
proof (induction xs)
  case Nil
  then show ?case by (simp add: sort_cmp_def)
next
  case (Cons x xs)
  then have "sort_cmp cmp xs = xs" by simp
  then have "sort_cmp cmp (x # xs) = insert_cmp cmp x xs"
    by (simp add: sort_cmp_def)
  also from Cons.prems have "\<dots> = x # xs"
    by (cases xs) simp_all
  finally show ?case .
qed

lemma sorted_insert_cmp:
  assumes "\<And>a b. cmp a b \<le> 0 \<longleftrightarrow> key a \<le> (key b :: real)"
  shows "sorted_wrt (\<lambda>a b. key a \<le> key b) xs \<Longrightarrow> sorted_wrt (\<lambda>a b. key a \<le> key b) (insert_cmp cmp x xs)"
  using assms by (induction xs) (auto simp: set_insert_cmp)

lemma sorted_sort_cmp:
  assumes "\<And>a b. cmp a b \<le> 0 \<longleftrightarrow> key a \<le> (key b :: real)"
  shows "sorted_wrt (\<lambda>a b. key a \<le> key b) (sort_cmp cmp xs)"
  by (induction xs) (simp_all add: sort_cmp_def sorted_insert_cmp [OF assms])


lemma get_set_side [simp]: "get_side isb (set_side isb arr b) = arr"
  by (simp add: get_side_def set_side_def)

lemma get_set_other [simp]: "get_side (\<not> isb) (set_side isb arr b) = get_side (\<not> isb) b"
  by (simp add: get_side_def set_side_def)

lemma set_side_same [simp]: "set_side isb (get_side isb b) b = b"
  by (simp add: get_side_def set_side_def)

lemma strictly_ordered_cmp:
  "strictly_ordered isb ls \<longleftrightarrow> sorted_wrt (\<lambda>a b. side_cmp isb a b < 0) ls"
  by (simp add: strictly_ordered_def strictly_descending_def strictly_ascending_def side_cmp_def)

lemma strictly_ordered_prices:
  "strictly_ordered isb ls \<longleftrightarrow> sorted_wrt (\<lambda>x y. if isb then y < x else x < y) (map fst ls)"
  by (simp add: strictly_ordered_def strictly_descending_def strictly_ascending_def sorted_wrt_map)

lemma strictly_ordered_distinct: "strictly_ordered isb ls \<Longrightarrow> distinct (map fst ls)"
  by (induction ls) (auto simp: strictly_ordered_cmp side_cmp_def split: if_splits)

lemma side_order_distinct_strict:
  "in_side_order isb ls \<Longrightarrow> distinct (map fst ls) \<Longrightarrow> strictly_ordered isb ls"
  unfolding strictly_ordered_cmp in_side_order_def
  by (induction ls) (force simp: side_cmp_def split: if_splits)+

lemma in_side_order_sort: "in_side_order isb (sort_cmp (side_cmp isb) xs)"
proof (cases isb)
  case True
  have "sorted_wrt (\<lambda>a b. - fst a \<le> - fst b) (sort_cmp (side_cmp True) xs)"
    by (rule sorted_sort_cmp) (simp add: side_cmp_def)
  with True show ?thesis by (simp add: in_side_order_def side_cmp_def)
next
  case False
  have "sorted_wrt (\<lambda>a b. fst a \<le> fst b) (sort_cmp (side_cmp False) xs)"
    by (rule sorted_sort_cmp) (simp add: side_cmp_def)
  with False show ?thesis by (simp add: in_side_order_def side_cmp_def)
qed

lemma sort_in_side_order_id: "in_side_order isb xs \<Longrightarrow> sort_cmp (side_cmp isb) xs = xs"
  unfolding in_side_order_def by (rule sort_cmp_sorted_id)

lemma strictly_ordered_take: "strictly_ordered isb ls \<Longrightarrow> strictly_ordered isb (take n ls)"
  unfolding strictly_ordered_cmp by (rule sorted_wrt_take)

lemma update_arr_prices:
  assumes "distinct (map fst arr)"
  shows "distinct (map fst (update_arr ut lv arr))"
proof -
  let ?i = "findIndex (\<lambda>l. fst l = fst lv) arr"
  show ?thesis
  proof (cases "ut = 0 \<or> ut = 2")
    case upsert: True
    show ?thesis
    proof (cases "0 \<le> ?i")
      case True
      from findIndex_found [OF True]
      have "(map fst arr)[nat ?i := fst lv] = map fst arr"
        by (simp add: list_update_same_conv)
      then have "map fst (arr[nat ?i := (fst lv, snd lv)]) = map fst arr"
        by (simp add: map_update)
      with upsert True assms show ?thesis by (simp add: update_arr_def Let_def)
    next
      case False
      then have "\<forall>x \<in> set arr. fst x \<noteq> fst lv"
        using findIndex_neg_iff [of "\<lambda>l. fst l = fst lv" arr] by simp
      with upsert False assms show ?thesis by (auto simp: update_arr_def Let_def)
    qed
  next
    case False
    with assms show ?thesis by (simp add: update_arr_def Let_def distinct_map_filter)
  qed
qed

lemma next_side_strict:
  assumes "strictly_ordered isb arr"
  shows "strictly_ordered isb (next_side isb ut lv arr)"
proof -
  have "distinct (map fst (update_arr ut lv arr))"
    using assms by (intro update_arr_prices strictly_ordered_distinct)
  then have "distinct (map fst (sort_cmp (side_cmp isb) (update_arr ut lv arr)))"
    by (simp add: distinct_prices_sort_cmp)
  then have "strictly_ordered isb (sort_cmp (side_cmp isb) (update_arr ut lv arr))"
    by (intro side_order_distinct_strict in_side_order_sort)
  then show ?thesis
    unfolding next_side_def by (rule strictly_ordered_take)
qed

lemma length_next_side: "length (next_side isb ut lv arr) \<le> 50"
  by (simp add: next_side_def)

lemma next_side_noop:
  assumes "in_side_order isb arr" and "length arr \<le> 50" and "update_arr ut lv arr = arr"
  shows "next_side isb ut lv arr = arr"
  using assms by (simp add: next_side_def sort_in_side_order_id)

lemma update_arr_remove_absent:
  assumes "fst lv \<notin> fst ` set arr"
  shows "update_arr 1 lv arr = arr"
proof -
  from assms have "filter (\<lambda>l. fst l \<noteq> fst lv) arr = arr"
    by (induction arr) auto
  then show ?thesis by (simp add: update_arr_def)
qed

lemma update_arr_unknown:
  "ut \<noteq> 0 \<Longrightarrow> ut \<noteq> 1 \<Longrightarrow> ut \<noteq> 2 \<Longrightarrow> update_arr ut lv arr = arr"
  by (simp add: update_arr_def)

lemma update_arr_upsert_mem:
  assumes "ut = 0 \<or> ut = 2"
  shows "lv \<in> set (update_arr ut lv arr) \<and> length (update_arr ut lv arr) \<le> Suc (length arr)"
proof (cases "0 \<le> findIndex (\<lambda>l. fst l = fst lv) arr")
  case True
  from findIndex_found [OF True] assms True show ?thesis
    by (simp add: update_arr_def Let_def set_update_memI)
next
  case False
  with assms show ?thesis by (simp add: update_arr_def Let_def)
qed

lemma run_snoc: "run st (evs @ [e]) = apply_last (fst e) (snd e) (run st evs)"
  by (simp add: run_def)

lemma book_ordered_step:
  assumes "snapshot_levels_ordered m"
    and "strictly_descending (bids (book st)) \<and> strictly_ascending (asks (book st))"
  shows "strictly_descending (bids (book (apply_last now m st))) \<and>
         strictly_ascending (asks (book (apply_last now m st)))"
proof (cases m)
  case (Snapshot iid ts bs as gts sq)
  with assms(1) show ?thesis by simp
next
  case (Incremental iid ts isb ut lv gts sq)
  from assms(2) have "strictly_ordered isb (get_side isb (book st))"
    by (simp add: strictly_ordered_def get_side_def)
  then have "strictly_ordered isb (next_side isb ut lv (get_side isb (book st)))"
    by (rule next_side_strict)
  with assms(2) Incremental show ?thesis
    by (cases isb) (simp_all add: strictly_ordered_def setBook_incremental_def set_side_def get_side_def)
qed

lemma book_ordered_run:
  assumes "\<forall>e \<in> set evs. snapshot_levels_ordered (snd e)"
  shows "strictly_descending (bids (book (run initial evs))) \<and>
         strictly_ascending (asks (book (run initial evs)))"
  using assms
proof (induction evs rule: rev_induct)
  case Nil
  show ?case by (simp add: run_def initial_def strictly_descending_def strictly_ascending_def)
next
  case (snoc e evs)
  then show ?case by (simp add: run_snoc book_ordered_step)
qed

lemma depth_step:
  assumes "snapshot_within_depth m"
    and "length (bids (book st)) \<le> 50 \<and> length (asks (book st)) \<le> 50"
  shows "length (bids (book (apply_last now m st))) \<le> 50 \<and>
         length (asks (book (apply_last now m st))) \<le> 50"
proof (cases m)
  case (Snapshot iid ts bs as gts sq)
  with assms(1) show ?thesis by simp
next
  case (Incremental iid ts isb ut lv gts sq)
  with assms(2) show ?thesis
    by (cases isb) (simp_all add: setBook_incremental_def set_side_def length_next_side)
qed

lemma depth_run:
  assumes "\<forall>e \<in> set evs. snapshot_within_depth (snd e)"
  shows "length (bids (book (run initial evs))) \<le> 50 \<and> length (asks (book (run initial evs))) \<le> 50"
  using assms
proof (induction evs rule: rev_induct)
  case Nil
  show ?case by (simp add: run_def initial_def)
next
  case (snoc e evs)
  then show ?case by (simp add: run_snoc depth_step)
qed

lemma dropped_apply_last: "dropped (apply_last now m st) = dropped st"
  by (cases m) simp_all

lemma dropped_effect: "dropped (useOrderbook_effect now ms st) = dropped st"
  by (simp add: useOrderbook_effect_def dropped_apply_last)

lemma recordLatency_window:
  "foldl (\<lambda>l x. recordLatency x l) [] xs = drop (length xs - 200) xs"
proof (induction xs rule: rev_induct)
  case Nil
  show ?case by simp
next
  case (snoc x xs)
  show ?case
  proof (cases "length xs < 200")
    case True
    with snoc show ?thesis by (simp add: recordLatency_def)
  next
    case False
    then have "Suc (length xs) - 200 = Suc (length xs - 200)" by simp
    moreover have "tl (drop (length xs - 200) xs) = drop (Suc (length xs - 200)) xs"
      by (simp add: drop_Suc tl_drop)
    moreover from False have "drop (length xs - 200) xs \<noteq> []" by simp
    ultimately show ?thesis
      using snoc False by (simp add: recordLatency_def)
  qed
qed

lemma latency_apply_last:
  "latency (apply_last now m st) = recordLatency (now - timestamp m) (latency st)"
  by (cases m) simp_all

lemma latency_run:
  "latency (run st evs) =
     foldl (\<lambda>l x. recordLatency x l) (latency st) (map (\<lambda>e. fst e - timestamp (snd e)) evs)"
  by (induction evs rule: rev_induct) (simp_all add: run_def latency_apply_last)

section \<open>Properties of the numbers\<close>

text \<open>
  The search for the quantum ends at the binade of its argument; a real of the form
  \<open>m * 2 powi e\<close> with \<open>\<bar>m\<bar> < 2 ^ 53\<close> in the range of the exponents is a double; rounding
  moves a real by at most half a quantum.
\<close>

lemma round_half_even_of_int [simp]: "round_half_even (of_int z) = z"
  by (simp add: round_half_even_def)

lemma quantum_le: "qe \<le> e \<Longrightarrow> a < 2 powi (e + 53) \<Longrightarrow> quantum n qe a \<le> e"
proof (induction n arbitrary: qe)
  case 0
  then show ?case by simp
next
  case (Suc n)
  show ?case
  proof (cases "a < 2 powi (qe + 53)")
    case True
    with Suc.prems show ?thesis by simp
  next
    case False
    with Suc.prems have "qe \<noteq> e" by auto
    with Suc.prems have "qe + 1 \<le> e" by simp
    from Suc.IH [OF this Suc.prems(2)] False show ?thesis by simp
  qed
qed

lemma quantum_ge: "qe \<le> quantum n qe a"
proof (induction n arbitrary: qe)
  case 0
  show ?case by simp
next
  case (Suc n)
  from Suc [of "qe + 1"] show ?case by simp
qed

lemma quantum_eq:
  assumes "qe \<le> k" and "k \<le> qe + int n"
    and "qe < k \<Longrightarrow> 2 powi (k + 52) \<le> a"
    and "a < 2 powi (k + 53) \<or> k = qe + int n"
  shows "quantum n qe a = k"
  using assms
proof (induction n arbitrary: qe)
  case 0
  then show ?case by simp
next
  case (Suc n)
  show ?case
  proof (cases "a < 2 powi (qe + 53)")
    case True
    have "\<not> qe < k"
    proof
      assume lt: "qe < k"
      then have "(2::real) powi (qe + 53) \<le> 2 powi (k + 52)"
        by (intro power_int_increasing) simp_all
      also from Suc.prems(3) [OF lt] have "\<dots> \<le> a" .
      finally show False using True by simp
    qed
    with Suc.prems(1) True show ?thesis by simp
  next
    case False
    have "qe \<noteq> k"
    proof
      assume "qe = k"
      with Suc.prems(4) False show False by simp
    qed
    with Suc.prems(1) have lt: "qe < k" by simp
    have "quantum n (qe + 1) a = k"
    proof (rule Suc.IH)
      show "qe + 1 \<le> k" using lt by simp
      show "k \<le> qe + 1 + int n" using Suc.prems(2) by simp
      show "2 powi (k + 52) \<le> a" using Suc.prems(3) [OF lt] .
      show "a < 2 powi (k + 53) \<or> k = qe + 1 + int n" using Suc.prems(4) by auto
    qed
    with False show ?thesis by simp
  qed
qed

lemma quantum_binade:
  assumes "- 1074 \<le> k" and "k \<le> 971" and "- 1074 < k \<Longrightarrow> 2 powi (k + 52) \<le> a"
    and "a < 2 powi (k + 53)"
  shows "quantum 2045 (- 1074) a = k"
  using assms by (intro quantum_eq) simp_all

lemma to_double_exact:
  assumes "\<bar>m\<bar> < 2 ^ 53" and "- 1074 \<le> e" and "e \<le> 971"
  shows "to_double (of_int m * 2 powi e) = Finite (of_int m * 2 powi e)"
proof -
  let ?x = "real_of_int m * 2 powi e"
  let ?k = "quantum 2045 (- 1074) \<bar>?x\<bar>"
  have absx: "\<bar>?x\<bar> = real_of_int \<bar>m\<bar> * 2 powi e"
    by (simp add: abs_mult)
  from assms(1) have "real_of_int \<bar>m\<bar> < 2 ^ 53"
    by (metis of_int_less_numeral_power_cancel_iff)
  then have "\<bar>?x\<bar> < 2 ^ 53 * 2 powi e"
    unfolding absx by (intro mult_strict_right_mono) simp_all
  also have "\<dots> = 2 powi (e + 53)"
    by (simp add: power_int_add)
  finally have lt: "\<bar>?x\<bar> < 2 powi (e + 53)" .
  from assms(2) lt have ke: "?k \<le> e" by (rule quantum_le)
  have "?x / 2 powi ?k = real_of_int m * 2 powi (e - ?k)"
    by (simp add: power_int_diff)
  also from ke have "\<dots> = real_of_int (m * 2 ^ nat (e - ?k))"
    by (simp add: power_int_nonneg_exp)
  finally have "round_half_even (?x / 2 powi ?k) = m * 2 ^ nat (e - ?k)"
    by (simp only: round_half_even_of_int)
  then have "real_of_int (round_half_even (?x / 2 powi ?k)) * 2 powi ?k
      = real_of_int m * (2 powi (e - ?k) * 2 powi ?k)"
    using ke by (simp add: power_int_nonneg_exp)
  also have "\<dots> = ?x"
    by (simp flip: power_int_add)
  finally have r: "real_of_int (round_half_even (?x / 2 powi ?k)) * 2 powi ?k = ?x" .
  from assms(3) have "(2::real) powi (e + 53) \<le> 2 powi 1024"
    by (intro power_int_increasing) simp_all
  with lt have "\<not> 2 powi 1024 \<le> \<bar>?x\<bar>" by simp
  with r show ?thesis
    by (simp add: to_double_def Let_def del: power_int_numeral)
qed

lemma to_double_int: "\<bar>m\<bar> < 2 ^ 53 \<Longrightarrow> to_double (of_int m) = Finite (of_int m)"
  using to_double_exact [of m 0] by simp

lemma is_double_scaled:
  "\<bar>m\<bar> < 2 ^ 53 \<Longrightarrow> - 1074 \<le> e \<Longrightarrow> e \<le> 971 \<Longrightarrow> is_double (of_int m * 2 powi e)"
  by (simp add: is_double_def to_double_exact)

lemma is_double_int: "\<bar>m\<bar> < 2 ^ 53 \<Longrightarrow> is_double (of_int m)"
  by (simp add: is_double_def to_double_int)

lemma round_half_even_error: "\<bar>real_of_int (round_half_even y) - y\<bar> \<le> 1 / 2"
  unfolding round_half_even_def Let_def by (auto simp: abs_if) linarith+

lemma to_double_error:
  assumes "\<bar>x\<bar> < 2 powi (e + 53)" and "- 1074 \<le> e" and "e \<le> 970"
  shows "\<exists>r. to_double x = Finite r \<and> \<bar>r - x\<bar> \<le> 2 powi (e - 1)"
proof -
  let ?k = "quantum 2045 (- 1074) \<bar>x\<bar>"
  let ?q = "(2::real) powi ?k"
  let ?r = "real_of_int (round_half_even (x / ?q)) * ?q"
  from assms(2) assms(1) have ke: "?k \<le> e" by (rule quantum_le)
  have qpos: "0 < ?q" by simp
  have "?r - x = (real_of_int (round_half_even (x / ?q)) - x / ?q) * ?q"
    using qpos by (simp add: algebra_simps)
  then have "\<bar>?r - x\<bar> = \<bar>real_of_int (round_half_even (x / ?q)) - x / ?q\<bar> * ?q"
    using qpos by (simp add: abs_mult)
  also have "\<dots> \<le> 1 / 2 * ?q"
    using qpos by (intro mult_right_mono round_half_even_error) simp
  also have "\<dots> = 2 powi (?k - 1)"
    by (simp add: power_int_diff)
  also from ke have "\<dots> \<le> 2 powi (e - 1)"
    by (intro power_int_increasing) simp_all
  finally have err: "\<bar>?r - x\<bar> \<le> 2 powi (e - 1)" .
  have "\<bar>?r\<bar> \<le> \<bar>x\<bar> + \<bar>?r - x\<bar>" by simp
  also from assms(1) err have "\<dots> < 2 powi (e + 53) + 2 powi (e - 1)" by simp
  also have "\<dots> \<le> 2 powi (e + 53) + 2 powi (e + 53)"
    by (intro add_left_mono power_int_increasing) simp_all
  also have "\<dots> = 2 powi (e + 54)"
    by (simp add: power_int_add)
  also from assms(3) have "\<dots> \<le> 2 powi 1024"
    by (intro power_int_increasing) simp_all
  finally have "\<not> 2 powi 1024 \<le> \<bar>?r\<bar>" by simp
  then have "to_double x = Finite ?r"
    by (simp add: to_double_def Let_def del: power_int_numeral)
  with err show ?thesis by blast
qed

lemma to_double_numeral:
  "(numeral n :: int) < 2 ^ 53 \<Longrightarrow> to_double (numeral n) = Finite (numeral n)"
  using to_double_int [of "numeral n"] by simp

lemma to_double_half_numeral:
  "(numeral n :: int) < 2 ^ 53 \<Longrightarrow> to_double (numeral n / 2) = Finite (numeral n / 2)"
  using to_double_exact [of "numeral n" "- 1"] by (simp add: power_int_minus)

lemma to_double_zero: "to_double 0 = Finite 0"
  using to_double_int [of 0] by simp

lemma to_double_one: "to_double 1 = Finite 1"
  using to_double_int [of 1] by simp

text \<open>
  Sums of at most 200 integer samples below \<open>2 ^ 44\<close> in magnitude are exact in doubles,
  and rounding their quotient by the length to a double first does not change the
  integer \<^verbatim>\<open>Math.round\<close> gives: the quotient is at least \<open>1 / 400\<close> away from the next
  half-integer unless it is one, and rounding moves it by at most \<open>1 / 512\<close>.
\<close>

lemma abs_sum_list_bound:
  "\<forall>x \<in> set xs. \<bar>x\<bar> < B \<Longrightarrow> \<bar>sum_list xs\<bar> \<le> int (length xs) * (B :: int)"
proof (induction xs)
  case Nil
  show ?case by simp
next
  case (Cons x xs)
  then have "\<bar>sum_list xs\<bar> \<le> int (length xs) * B" and "\<bar>x\<bar> < B" by simp_all
  then show ?case by (simp add: algebra_simps)
qed

lemma reduce_sum_exact:
  assumes "\<forall>x \<in> set arr. \<bar>x\<bar> < 2 ^ 44" and "length arr \<le> 200"
  shows "foldl (\<lambda>a b. d_add a (Finite (of_int b))) (Finite 0) arr = Finite (of_int (sum_list arr))"
  using assms
proof (induction arr rule: rev_induct)
  case Nil
  show ?case by simp
next
  case (snoc x xs)
  from snoc.prems have "\<bar>sum_list (xs @ [x])\<bar> \<le> int (length (xs @ [x])) * 2 ^ 44"
    by (intro abs_sum_list_bound) simp
  also from snoc.prems(2) have "\<dots> \<le> 200 * 2 ^ 44" by simp
  also have "\<dots> < (2::int) ^ 53" by simp
  finally have "to_double (of_int (sum_list (xs @ [x]))) = Finite (of_int (sum_list (xs @ [x])))"
    by (rule to_double_int)
  moreover from snoc have
    "foldl (\<lambda>a b. d_add a (Finite (of_int b))) (Finite 0) xs = Finite (of_int (sum_list xs))"
    by simp
  ultimately show ?case by simp
qed

lemma round_quotient:
  assumes n: "0 < n" "n \<le> 200" and y: "\<bar>real_of_int s / real n\<bar> < 2 ^ 45"
  shows "math_round (d_div (Finite (of_int s)) (Finite (of_nat n)))
           = Finite (of_int (round (real_of_int s / real n)))"
proof -
  define y where "y = real_of_int s / real n"
  define k where "k = round y"
  have npos: "0 < real n" using n by simp
  have ny: "y * real n = real_of_int s" using npos by (simp add: y_def)
  have step: "1 / 400 \<le> 1 / (2 * real n)"
    using n by (simp add: field_simps)
  have "\<bar>y\<bar> < 2 powi (- 8 + 53)" using y by (simp add: y_def)
  then obtain r where r: "to_double y = Finite r" and err: "\<bar>r - y\<bar> \<le> 2 powi (- 8 - 1)"
    using to_double_error [of y "- 8"] by auto
  from err have err': "\<bar>r - y\<bar> \<le> 1 / 512" by (simp add: power_int_minus)
  have k1: "real_of_int k - 1 / 2 \<le> y" unfolding k_def using of_int_round_le [of y] by simp
  have k2: "y < real_of_int k + 1 / 2" unfolding k_def using of_int_round_gt [of y] by simp
  have upper: "r < real_of_int k + 1 / 2"
  proof -
    from k2 have "y * real n < (real_of_int k + 1 / 2) * real n"
      using npos by (simp only: mult_less_cancel_right_pos)
    then have "real_of_int (2 * s) < real_of_int ((2 * k + 1) * int n)"
      by (simp add: ny algebra_simps)
    then have "2 * s < (2 * k + 1) * int n" by (simp only: of_int_less_iff)
    then have "2 * s + 1 \<le> (2 * k + 1) * int n" by simp
    then have "real_of_int (2 * s + 1) \<le> real_of_int ((2 * k + 1) * int n)"
      by (simp only: of_int_le_iff)
    then have "2 * (y * real n) + 1 \<le> (2 * real_of_int k + 1) * real n"
      by (simp add: ny)
    then have "y + 1 / (2 * real n) \<le> real_of_int k + 1 / 2"
      using npos by (simp add: field_simps)
    with step err' show ?thesis by linarith
  qed
  have lower: "real_of_int k - 1 / 2 \<le> r"
  proof (cases "y = real_of_int k - 1 / 2")
    case True
    have "\<bar>y\<bar> < 2 ^ 45" using y by (simp add: y_def)
    with True have "\<bar>real_of_int (2 * k - 1)\<bar> < 2 ^ 46" by (simp add: abs_if split: if_splits)
    then have "\<bar>2 * k - 1\<bar> < 2 ^ 46"
      by (metis of_int_abs of_int_less_numeral_power_cancel_iff)
    then have "\<bar>2 * k - 1\<bar> < 2 ^ 53" by simp
    then have "to_double (real_of_int (2 * k - 1) * 2 powi (- 1)) = Finite (real_of_int (2 * k - 1) * 2 powi (- 1))"
      by (intro to_double_exact) simp_all
    moreover have "real_of_int (2 * k - 1) * 2 powi (- 1) = y"
      using True by (simp add: power_int_minus)
    ultimately have "r = y" using r by simp
    with True show ?thesis by simp
  next
    case False
    with k1 have "real_of_int k - 1 / 2 < y" by simp
    then have "(real_of_int k - 1 / 2) * real n < y * real n"
      using npos by (simp only: mult_less_cancel_right_pos)
    then have "real_of_int ((2 * k - 1) * int n) < real_of_int (2 * s)"
      by (simp add: ny algebra_simps)
    then have "(2 * k - 1) * int n < 2 * s" by (simp only: of_int_less_iff)
    then have "(2 * k - 1) * int n + 1 \<le> 2 * s" by simp
    then have "real_of_int ((2 * k - 1) * int n + 1) \<le> real_of_int (2 * s)"
      by (simp only: of_int_le_iff)
    then have "(2 * real_of_int k - 1) * real n + 1 \<le> 2 * (y * real n)"
      by (simp add: ny)
    then have "real_of_int k - 1 / 2 + 1 / (2 * real n) \<le> y"
      using npos by (simp add: field_simps)
    with step err' show ?thesis by linarith
  qed
  from lower upper have "\<lfloor>r + 1 / 2\<rfloor> = k"
    by (intro floor_unique) simp_all
  with r n show ?thesis
    by (simp add: y_def k_def)
qed

lemma latencyMs_mean:
  assumes "arr \<noteq> []" and "length arr \<le> 200" and "\<forall>x \<in> set arr. \<bar>x\<bar> < 2 ^ 44"
  shows "latencyMs arr = Finite (of_int (round (real_of_int (sum_list arr) / real (length arr))))"
proof -
  from assms(1) have n: "0 < length arr" by simp
  from assms(3) have "\<bar>sum_list arr\<bar> \<le> int (length arr) * 2 ^ 44"
    by (rule abs_sum_list_bound)
  then have "\<bar>real_of_int (sum_list arr)\<bar> \<le> real (length arr) * 2 ^ 44"
    by (metis (mono_tags) of_int_abs of_int_le_iff of_int_mult of_int_of_nat_eq of_int_numeral of_int_power)
  then have "\<bar>real_of_int (sum_list arr) / real (length arr)\<bar> \<le> 2 ^ 44"
    using n by (simp add: field_simps)
  then have y: "\<bar>real_of_int (sum_list arr) / real (length arr)\<bar> < 2 ^ 45"
    by simp
  from round_quotient [OF n assms(2) y] reduce_sum_exact [OF assms(3) assms(2)] assms(1)
  show ?thesis by (simp add: latencyMs_def)
qed

subsection \<open>Worked examples\<close>

text \<open>
  The model evaluated on small inputs: rounding to a double (a tie between two
  doubles, one third, the overflow), a snapshot followed by an update and a removal on
  the bid side, levels arriving out of order on both sides, the rounded mean latency
  and the value the hook returns for the first message, and the bound on the message
  array that follows from the compaction.
\<close>

lemma to_double_tie_example: "to_double 9007199254740993 = Finite 9007199254740992"
proof -
  have q: "quantum 2045 (- 1074) \<bar>9007199254740993\<bar> = 1"
    by (rule quantum_binade) simp_all
  have r: "round_half_even (9007199254740993 / 2) = 4503599627370496"
    by (simp add: round_half_even_def)
  show ?thesis
    unfolding to_double_def q by (simp add: r)
qed

lemma to_double_half_example: "to_double (201 / 2) = Finite (201 / 2)"
  using to_double_exact [of 201 "- 1"] by simp

lemma to_double_overflow_example: "to_double (2 ^ 1024) = PosInf"
proof -
  have q: "quantum 2045 (- 1074) \<bar>2 ^ 1024\<bar> = 971"
    by (rule quantum_eq) simp_all
  have r: "round_half_even 9007199254740992 = 9007199254740992"
    by (simp add: round_half_even_def)
  show ?thesis
    unfolding to_double_def q by (simp add: r)
qed

lemma to_double_third: "to_double (1 / 3) = Finite (6004799503160661 / 18014398509481984)"
proof -
  have q: "quantum 2045 (- 1074) \<bar>1 / 3\<bar> = - 54"
    by (rule quantum_binade) simp_all
  have r: "round_half_even (18014398509481984 / 3) = 6004799503160661"
    by (simp add: round_half_even_def)
  show ?thesis
    unfolding to_double_def q by (simp add: r power_int_minus)
qed


lemmas eval_defs = run_def initial_def setBook_incremental_def next_side_def update_arr_def
  sort_cmp_def side_cmp_def set_side_def get_side_def spread_def first_price_def d_sub_def

lemma example_snapshot_then_updates:
  "book (run initial [(10, Snapshot 1 0 [(100, 5), (99, 3)] [(101, 4), (102, 2)] None None)])
     = \<lparr>bids = [(100, 5), (99, 3)], asks = [(101, 4), (102, 2)], lastSeq = None\<rparr>"
  "spread (book (run initial [(10, Snapshot 1 0 [(100, 5), (99, 3)] [(101, 4), (102, 2)] None None)]))
     = Some \<lparr>val = Finite 1, mid = Finite (201 / 2)\<rparr>"
  "book (run initial [(10, Snapshot 1 0 [(100, 5), (99, 3)] [(101, 4), (102, 2)] None None),
                      (20, Incremental 1 5 True 0 (100, 7) None None)])
     = \<lparr>bids = [(100, 7), (99, 3)], asks = [(101, 4), (102, 2)], lastSeq = None\<rparr>"
  "book (run initial [(10, Snapshot 1 0 [(100, 5), (99, 3)] [(101, 4), (102, 2)] None None),
                      (20, Incremental 1 5 True 0 (100, 7) None None),
                      (30, Incremental 1 6 True 1 (100, 0) None None)])
     = \<lparr>bids = [(99, 3)], asks = [(101, 4), (102, 2)], lastSeq = None\<rparr>"
  "spread (book (run initial [(10, Snapshot 1 0 [(100, 5), (99, 3)] [(101, 4), (102, 2)] None None),
                      (20, Incremental 1 5 True 0 (100, 7) None None),
                      (30, Incremental 1 6 True 1 (100, 0) None None)]))
     = Some \<lparr>val = Finite 2, mid = Finite 100\<rparr>"
  by (simp_all add: eval_defs to_double_numeral to_double_half_numeral to_double_one)

lemma example_insert_between:
  "book (run initial [(10, Incremental 1 0 False 0 (103, 1) None None),
                      (20, Incremental 1 0 False 2 (101, 4) None None),
                      (30, Incremental 1 0 False 0 (102, 2) None None),
                      (40, Incremental 1 0 True 0 (99, 3) None None),
                      (50, Incremental 1 0 True 2 (100, 5) None None)])
     = \<lparr>bids = [(100, 5), (99, 3)], asks = [(101, 4), (102, 2), (103, 1)], lastSeq = None\<rparr>"
  by (simp add: eval_defs)

lemma example_latencyMs:
  "latencyMs [10, 11] = Finite 11" "latencyMs [10, 11, 11] = Finite 11"
  "latencyMs [- 3, - 4] = Finite (- 3)"
  by (simp_all add: latencyMs_mean round_def)

lemma example_returned_latencyMs:
  "ret_latencyMs (snd (useOrderbook 10 [Incremental 1 0 True 0 (100, 5) None None] initial)) = Finite 0"
  "latency (fst (useOrderbook 10 [Incremental 1 0 True 0 (100, 5) None None] initial)) = [10]"
  "latencyMs [10] = Finite 10"
  by (simp_all add: useOrderbook_def useOrderbook_effect_def initial_def recordLatency_def
      latencyMs_mean round_def Let_def) (simp add: latencyMs_def)

lemma length_onmessage_run: "length (foldl onmessage [] ds) \<le> 1001"
  by (induction ds rule: rev_induct) (auto simp: onmessage_def slice_last_def)

section \<open>Claims\<close>

subsection \<open>Snapshots\<close>

text \<open>
  C1 (as the code has it): applying a Snapshot replaces the book by exactly the message's
  bid and ask arrays, in the order given. Nothing is sorted, no duplicate price is
  resolved and nothing is cut to 50 entries on this path.
\<close>

theorem snapshot_replaces_verbatim:
  "book (apply_last now (Snapshot iid ts bs as gts sq) st) = \<lparr>bids = bs, asks = as, lastSeq = None\<rparr>"
  by simp

text \<open>
  C1 as stated fails: a snapshot whose bids are not in descending order, and repeat the
  price 99, is stored as it came.
\<close>

theorem snapshot_not_sorted_counterexample:
  "bids (book (apply_last 0 (Snapshot 1 0 [(99, 3), (100, 5), (99, 4)] [(101, 4)] None None) initial))
     = [(99, 3), (100, 5), (99, 4)] \<and>
   \<not> sorted_wrt (\<lambda>a b. fst a \<ge> fst b)
       (bids (book (apply_last 0 (Snapshot 1 0 [(99, 3), (100, 5), (99, 4)] [(101, 4)] None None) initial)))"
  by simp

subsection \<open>Ordering and depth\<close>

text \<open>
  C2 (amended): starting from the empty book, for every sequence of applied messages in
  which each Snapshot carries bids strictly descending and asks strictly ascending by
  price, after each message (after every prefix of the sequence) the bids are strictly
  descending, the asks strictly ascending, and no price occurs twice within a side.
\<close>

theorem ordering_invariant:
  assumes "list_all (\<lambda>e. snapshot_levels_ordered (snd e)) evs"
  shows "strictly_descending (bids (book (run initial (take n evs)))) \<and>
         strictly_ascending (asks (book (run initial (take n evs)))) \<and>
         distinct (map fst (bids (book (run initial (take n evs))))) \<and>
         distinct (map fst (asks (book (run initial (take n evs)))))"
proof -
  from assms have "\<forall>e \<in> set (take n evs). snapshot_levels_ordered (snd e)"
    by (auto simp: list_all_iff dest: in_set_takeD)
  then have ord: "strictly_descending (bids (book (run initial (take n evs)))) \<and>
         strictly_ascending (asks (book (run initial (take n evs))))"
    by (rule book_ordered_run)
  then have "strictly_ordered True (bids (book (run initial (take n evs))))"
    and "strictly_ordered False (asks (book (run initial (take n evs))))"
    by (simp_all add: strictly_ordered_def)
  then have "distinct (map fst (bids (book (run initial (take n evs)))))"
    and "distinct (map fst (asks (book (run initial (take n evs)))))"
    by (simp_all add: strictly_ordered_distinct)
  with ord show ?thesis by simp
qed

theorem ordering_invariant_witness:
  "(list_all (\<lambda>e. snapshot_levels_ordered (snd e))
      [(10, Snapshot 1 0 [(100, 5), (99, 3)] [(101, 4), (102, 2)] None None),
               (20, Incremental 1 5 True 0 (100, 7) None None),
               (30, Incremental 1 6 True 1 (100, 0) None None)]) \<and>
   strictly_descending (bids (book (run initial (take 3
      [(10, Snapshot 1 0 [(100, 5), (99, 3)] [(101, 4), (102, 2)] None None),
       (20, Incremental 1 5 True 0 (100, 7) None None),
       (30, Incremental 1 6 True 1 (100, 0) None None)])))) \<and>
   strictly_ascending (asks (book (run initial (take 3
      [(10, Snapshot 1 0 [(100, 5), (99, 3)] [(101, 4), (102, 2)] None None),
       (20, Incremental 1 5 True 0 (100, 7) None None),
       (30, Incremental 1 6 True 1 (100, 0) None None)]))))"
proof -
  have h: "list_all (\<lambda>e. snapshot_levels_ordered (snd e))
      [(10, Snapshot 1 0 [(100, 5), (99, 3)] [(101, 4), (102, 2)] None None),
               (20, Incremental 1 5 True 0 (100, 7) None None),
               (30, Incremental 1 6 True 1 (100, 0) None None)]"
    by (simp add: strictly_descending_def strictly_ascending_def)
  from ordering_invariant [OF h, of 3] h show ?thesis by blast
qed

text \<open>
  C2 as stated fails: a snapshot with asks in the wrong order leaves them so, and an
  incremental message for the bid side does not touch them.
\<close>

theorem ordering_counterexample:
  "\<not> strictly_ascending (asks (book (run initial
       [(10, Snapshot 1 0 [(100, 5)] [(102, 2), (101, 4)] None None),
        (20, Incremental 1 5 True 0 (100, 7) None None)])))"
  by (simp add: run_def strictly_ascending_def setBook_incremental_def set_side_def)

text \<open>
  C3 (amended): starting from the empty book, for every sequence of applied messages in
  which each Snapshot carries at most 50 bids and at most 50 asks, after each message
  each side holds at most 50 levels.
\<close>

theorem depth_bound:
  assumes "list_all (\<lambda>e. snapshot_within_depth (snd e)) evs"
  shows "length (bids (book (run initial (take n evs)))) \<le> 50 \<and>
         length (asks (book (run initial (take n evs)))) \<le> 50"
proof -
  from assms have "\<forall>e \<in> set (take n evs). snapshot_within_depth (snd e)"
    by (auto simp: list_all_iff dest: in_set_takeD)
  then show ?thesis by (rule depth_run)
qed

theorem depth_bound_witness:
  "(list_all (\<lambda>e. snapshot_within_depth (snd e))
      [(10, Snapshot 1 0 [(100, 5), (99, 3)] [(101, 4), (102, 2)] None None),
               (20, Incremental 1 5 False 2 (103, 1) None None)]) \<and>
   length (bids (book (run initial (take 2
      [(10, Snapshot 1 0 [(100, 5), (99, 3)] [(101, 4), (102, 2)] None None),
       (20, Incremental 1 5 False 2 (103, 1) None None)])))) \<le> 50 \<and>
   length (asks (book (run initial (take 2
      [(10, Snapshot 1 0 [(100, 5), (99, 3)] [(101, 4), (102, 2)] None None),
       (20, Incremental 1 5 False 2 (103, 1) None None)])))) \<le> 50"
proof -
  have h: "list_all (\<lambda>e. snapshot_within_depth (snd e))
      [(10, Snapshot 1 0 [(100, 5), (99, 3)] [(101, 4), (102, 2)] None None),
               (20, Incremental 1 5 False 2 (103, 1) None None)]"
    by simp
  from depth_bound [OF h, of 2] h show ?thesis by blast
qed

text \<open>C3 as stated fails: a snapshot with 51 bids is stored with all 51.\<close>

theorem depth_counterexample:
  "length (bids (book (run initial
       [(10, Snapshot 1 0 (map (\<lambda>i. (real i, 1)) [0..<51]) [] None None)]))) = 51"
  by (simp add: run_def)

subsection \<open>The message buffer\<close>

text \<open>
  C4 (amended): a push onto more than 1000 held messages keeps the most recent 800 of
  them and appends the new one, so 801 are held afterwards; a push onto 1000 or fewer
  appends and evicts nothing. The counter \<open>dropped\<close> is not changed by the arrival of
  a message, whether or not messages were evicted.
\<close>

theorem onmessage_compaction:
  "(length prev > 1000 \<longrightarrow>
      onmessage prev d = drop (length prev - 800) prev @ [d] \<and> length (onmessage prev d) = 801) \<and>
   (length prev \<le> 1000 \<longrightarrow> onmessage prev d = prev @ [d]) \<and>
   dropped (snd (deliver now d (prev, st))) = dropped st"
  by (simp add: onmessage_def slice_last_def deliver_def dropped_effect Let_def)

theorem onmessage_compaction_witness:
  "length (replicate 1001 (Incremental 1 0 True 0 (100, 5) None None)) > 1000 \<and>
   length (onmessage (replicate 1001 (Incremental 1 0 True 0 (100, 5) None None))
             (Incremental 1 0 True 0 (100, 5) None None)) = 801 \<and>
   length (replicate 1000 (Incremental 1 0 True 0 (100, 5) None None)) \<le> 1000 \<and>
   onmessage (replicate 1000 (Incremental 1 0 True 0 (100, 5) None None))
             (Incremental 1 0 True 0 (100, 5) None None)
     = replicate 1000 (Incremental 1 0 True 0 (100, 5) None None) @ [Incremental 1 0 True 0 (100, 5) None None]"
  using onmessage_compaction [of "replicate 1001 (Incremental 1 0 True 0 (100, 5) None None)"
      "Incremental 1 0 True 0 (100, 5) None None" 0 initial]
    onmessage_compaction [of "replicate 1000 (Incremental 1 0 True 0 (100, 5) None None)"
      "Incremental 1 0 True 0 (100, 5) None None" 0 initial]
  by simp

text \<open>
  C4 as stated fails: with 1000 messages held, one more gives 1001, not 801, and
  \<open>dropped\<close> stays as it was.
\<close>

theorem onmessage_1000_counterexample:
  "length (fst (deliver 0 (Incremental 1 0 True 0 (100, 5) None None)
       (replicate 1000 (Incremental 1 0 True 0 (100, 5) None None), initial))) = 1001 \<and>
   dropped (snd (deliver 0 (Incremental 1 0 True 0 (100, 5) None None)
       (replicate 1000 (Incremental 1 0 True 0 (100, 5) None None), initial))) = dropped initial"
  by (simp add: deliver_def onmessage_def dropped_effect Let_def)

subsection \<open>Derived values\<close>

text \<open>
  C7 (amended): \<open>spread\<close> is null whenever either side is empty. Otherwise its \<open>val\<close> is
  the first ask price minus the first bid price and its \<open>mid\<close> is their sum divided by
  2, each operation in double arithmetic, that is, rounded to the nearest double; they
  are the exact difference and the exact half of the sum whenever the difference, the
  sum and the half of the sum are doubles, as they are for integer prices below
  \<open>2 ^ 52\<close> in magnitude.
\<close>

theorem spread_derived:
  "(bids b = [] \<or> asks b = [] \<longrightarrow> spread b = None) \<and>
   (bids b \<noteq> [] \<and> asks b \<noteq> [] \<longrightarrow>
      spread b = Some \<lparr>val = to_double (fst (hd (asks b)) - fst (hd (bids b))),
                       mid = d_div (to_double (fst (hd (asks b)) + fst (hd (bids b)))) (Finite 2)\<rparr>) \<and>
   (bids b \<noteq> [] \<and> asks b \<noteq> [] \<and>
    is_double (fst (hd (asks b)) - fst (hd (bids b))) \<and>
    is_double (fst (hd (asks b)) + fst (hd (bids b))) \<and>
    is_double ((fst (hd (asks b)) + fst (hd (bids b))) / 2) \<longrightarrow>
      spread b = Some \<lparr>val = Finite (fst (hd (asks b)) - fst (hd (bids b))),
                       mid = Finite ((fst (hd (asks b)) + fst (hd (bids b))) / 2)\<rparr>) \<and>
   (bids b \<noteq> [] \<and> asks b \<noteq> [] \<and>
    fst (hd (asks b)) = of_int i \<and> fst (hd (bids b)) = of_int j \<and>
    \<bar>i\<bar> < 2 ^ 52 \<and> \<bar>j\<bar> < 2 ^ 52 \<longrightarrow>
      spread b = Some \<lparr>val = Finite (of_int (i - j)), mid = Finite (of_int (i + j) / 2)\<rparr>)"
proof -
  have general: "bids b \<noteq> [] \<and> asks b \<noteq> [] \<longrightarrow>
      spread b = Some \<lparr>val = to_double (fst (hd (asks b)) - fst (hd (bids b))),
                       mid = d_div (to_double (fst (hd (asks b)) + fst (hd (bids b)))) (Finite 2)\<rparr>"
    by (cases "bids b"; cases "asks b") (simp_all add: spread_def first_price_def d_sub_def)
  have empty: "bids b = [] \<or> asks b = [] \<longrightarrow> spread b = None"
    by (cases "bids b"; cases "asks b") (simp_all add: spread_def first_price_def)
  have exact: "bids b \<noteq> [] \<and> asks b \<noteq> [] \<and>
    is_double (fst (hd (asks b)) - fst (hd (bids b))) \<and>
    is_double (fst (hd (asks b)) + fst (hd (bids b))) \<and>
    is_double ((fst (hd (asks b)) + fst (hd (bids b))) / 2) \<longrightarrow>
      spread b = Some \<lparr>val = Finite (fst (hd (asks b)) - fst (hd (bids b))),
                       mid = Finite ((fst (hd (asks b)) + fst (hd (bids b))) / 2)\<rparr>"
    using general by (simp add: is_double_def)
  have ints: "bids b \<noteq> [] \<and> asks b \<noteq> [] \<and>
    fst (hd (asks b)) = of_int i \<and> fst (hd (bids b)) = of_int j \<and>
    \<bar>i\<bar> < 2 ^ 52 \<and> \<bar>j\<bar> < 2 ^ 52 \<longrightarrow>
      spread b = Some \<lparr>val = Finite (of_int (i - j)), mid = Finite (of_int (i + j) / 2)\<rparr>"
  proof
    assume a: "bids b \<noteq> [] \<and> asks b \<noteq> [] \<and>
      fst (hd (asks b)) = of_int i \<and> fst (hd (bids b)) = of_int j \<and>
      \<bar>i\<bar> < 2 ^ 52 \<and> \<bar>j\<bar> < 2 ^ 52"
    then have bi: "\<bar>i\<bar> < 2 ^ 52" and bj: "\<bar>j\<bar> < 2 ^ 52" by simp_all
    then have "\<bar>i - j\<bar> < 2 ^ 53" and s: "\<bar>i + j\<bar> < 2 ^ 53" by simp_all
    then have d: "to_double (of_int (i - j)) = Finite (of_int (i - j))"
      and u: "to_double (of_int (i + j)) = Finite (of_int (i + j))"
      by (simp_all only: to_double_int)
    from s have "to_double (of_int (i + j) * 2 powi (- 1)) = Finite (of_int (i + j) * 2 powi (- 1))"
      by (intro to_double_exact) simp_all
    then have h: "to_double (of_int (i + j) / 2) = Finite (of_int (i + j) / 2)"
      by (simp add: power_int_minus field_simps)
    from a general have "spread b = Some \<lparr>val = to_double (of_int i - of_int j),
                       mid = d_div (to_double (of_int i + of_int j)) (Finite 2)\<rparr>"
      by simp
    also have "to_double (of_int i - of_int j) = Finite (of_int (i - j))"
      using d by simp
    also have "d_div (to_double (of_int i + of_int j)) (Finite 2) = Finite (of_int (i + j) / 2)"
      using u h by simp
    finally show "spread b = Some \<lparr>val = Finite (of_int (i - j)), mid = Finite (of_int (i + j) / 2)\<rparr>" .
  qed
  from empty general exact ints show ?thesis by blast
qed

theorem spread_derived_witness:
  "(bids \<lparr>bids = [(100, 5), (99, 3)], asks = [], lastSeq = None\<rparr> = []
      \<or> asks \<lparr>bids = [(100, 5), (99, 3)], asks = [], lastSeq = None\<rparr> = []) \<and>
   spread \<lparr>bids = [(100, 5), (99, 3)], asks = [], lastSeq = None\<rparr> = None \<and>
   bids \<lparr>bids = [(100, 5), (99, 3)], asks = [(101, 4), (102, 2)], lastSeq = None\<rparr> \<noteq> [] \<and>
   asks \<lparr>bids = [(100, 5), (99, 3)], asks = [(101, 4), (102, 2)], lastSeq = None\<rparr> \<noteq> [] \<and>
   is_double 1 \<and> is_double 201 \<and> is_double (201 / 2) \<and>
   spread \<lparr>bids = [(100, 5), (99, 3)], asks = [(101, 4), (102, 2)], lastSeq = None\<rparr>
     = Some \<lparr>val = Finite 1, mid = Finite (201 / 2)\<rparr>"
proof -
  let ?b = "\<lparr>bids = [(100, 5), (99, 3)], asks = [(101, 4), (102, 2)], lastSeq = None\<rparr>"
  have e: "bids \<lparr>bids = [(100, 5), (99, 3)], asks = [], lastSeq = None\<rparr> = []
      \<or> asks \<lparr>bids = [(100, 5), (99, 3)], asks = [], lastSeq = None\<rparr> = []"
    by simp
  have n: "bids ?b \<noteq> []" "asks ?b \<noteq> []"
    by simp_all
  have d: "is_double 1" "is_double 201" "is_double (201 / 2)"
    by (simp_all add: is_double_def to_double_one to_double_numeral to_double_half_numeral)
  then have d': "is_double (fst (hd (asks ?b)) - fst (hd (bids ?b)))"
    "is_double (fst (hd (asks ?b)) + fst (hd (bids ?b)))"
    "is_double ((fst (hd (asks ?b)) + fst (hd (bids ?b))) / 2)"
    by simp_all
  from spread_derived [of "\<lparr>bids = [(100, 5), (99, 3)], asks = [], lastSeq = None\<rparr>"] e
  have s1: "spread \<lparr>bids = [(100, 5), (99, 3)], asks = [], lastSeq = None\<rparr> = None"
    by blast
  from spread_derived [of ?b] n d'
  have "spread ?b = Some \<lparr>val = Finite (fst (hd (asks ?b)) - fst (hd (bids ?b))),
                               mid = Finite ((fst (hd (asks ?b)) + fst (hd (bids ?b))) / 2)\<rparr>"
    by blast
  then have s2: "spread ?b = Some \<lparr>val = Finite 1, mid = Finite (201 / 2)\<rparr>"
    by simp
  from e s1 n d s2 show ?thesis by blast
qed

text \<open>
  C7 as stated, with exact arithmetic, fails: for the first bid at 1 and the first ask at
  \<open>2 ^ 53\<close> the sum \<open>2 ^ 53 + 1\<close> is not a double and rounds to \<open>2 ^ 53\<close>, so \<open>mid\<close> is
  \<open>2 ^ 52\<close> and not half of the sum.
\<close>

theorem spread_rounding_counterexample:
  "spread \<lparr>bids = [(1, 1)], asks = [(9007199254740992, 1)], lastSeq = None\<rparr>
     = Some \<lparr>val = Finite 9007199254740991, mid = Finite 4503599627370496\<rparr> \<and>
   (9007199254740992 + 1) / 2 \<noteq> (4503599627370496 :: real)"
  by (simp add: spread_def first_price_def d_sub_def to_double_numeral to_double_tie_example)

subsection \<open>Incremental messages\<close>

text \<open>
  C10: an Incremental message changes only the side it names: with \<open>is_bid\<close> true the
  asks are exactly as before, with \<open>is_bid\<close> false the bids are.
\<close>

theorem incremental_frame:
  "get_side (\<not> isb) (book (apply_last now (Incremental iid ts isb ut lv gts sq) st))
     = get_side (\<not> isb) (book st) \<and>
   asks (book (apply_last now (Incremental iid ts True ut lv gts sq) st)) = asks (book st) \<and>
   bids (book (apply_last now (Incremental iid ts False ut lv gts sq) st)) = bids (book st)"
  by (simp add: setBook_incremental_def set_side_def get_side_def)

subsection \<open>Update types and quantities\<close>

text \<open>
  C5 (amended): an Incremental message whose \<open>update_type\<close> is none of 0, 1, 2 is applied
  without any failure (the function is total and has no error result): the named side
  becomes the first 50 entries of its stable sort into side order, the counter
  \<open>dropped\<close> keeps its value, and the book is unchanged whenever the named side was
  already in side order with at most 50 levels.
\<close>

theorem unknown_update_type:
  assumes "ut \<noteq> 0" and "ut \<noteq> 1" and "ut \<noteq> 2"
  shows "book (apply_last now (Incremental iid ts isb ut lv gts sq) st)
           = set_side isb (take 50 (sort_cmp (side_cmp isb) (get_side isb (book st)))) (book st) \<and>
         dropped (apply_last now (Incremental iid ts isb ut lv gts sq) st) = dropped st \<and>
         (in_side_order isb (get_side isb (book st)) \<and> length (get_side isb (book st)) \<le> 50 \<longrightarrow>
            book (apply_last now (Incremental iid ts isb ut lv gts sq) st) = book st)"
  using assms
  by (simp add: setBook_incremental_def next_side_def update_arr_unknown sort_in_side_order_id)

theorem unknown_update_type_witness:
  "(7::int) \<noteq> 0 \<and> (7::int) \<noteq> 1 \<and> (7::int) \<noteq> 2 \<and>
   in_side_order True (get_side True (book
     \<lparr>book = \<lparr>bids = [(100, 5), (99, 3)], asks = [(101, 4), (102, 2)], lastSeq = None\<rparr>,
      latency = [10], dropped = 0\<rparr>)) \<and>
   length (get_side True (book
     \<lparr>book = \<lparr>bids = [(100, 5), (99, 3)], asks = [(101, 4), (102, 2)], lastSeq = None\<rparr>,
      latency = [10], dropped = 0\<rparr>)) \<le> 50 \<and>
   book (apply_last 20 (Incremental 1 5 True 7 (100, 7) None None)
     \<lparr>book = \<lparr>bids = [(100, 5), (99, 3)], asks = [(101, 4), (102, 2)], lastSeq = None\<rparr>,
      latency = [10], dropped = 0\<rparr>)
     = book
     \<lparr>book = \<lparr>bids = [(100, 5), (99, 3)], asks = [(101, 4), (102, 2)], lastSeq = None\<rparr>,
      latency = [10], dropped = 0\<rparr> \<and>
   dropped (apply_last 20 (Incremental 1 5 True 7 (100, 7) None None)
     \<lparr>book = \<lparr>bids = [(100, 5), (99, 3)], asks = [(101, 4), (102, 2)], lastSeq = None\<rparr>,
      latency = [10], dropped = 0\<rparr>)
     = dropped
     \<lparr>book = \<lparr>bids = [(100, 5), (99, 3)], asks = [(101, 4), (102, 2)], lastSeq = None\<rparr>,
      latency = [10], dropped = 0\<rparr>"
proof -
  have n: "(7::int) \<noteq> 0" "(7::int) \<noteq> 1" "(7::int) \<noteq> 2"
    by simp_all
  have o: "in_side_order True (get_side True (book
     \<lparr>book = \<lparr>bids = [(100, 5), (99, 3)], asks = [(101, 4), (102, 2)], lastSeq = None\<rparr>,
      latency = [10], dropped = 0\<rparr>))"
    by (simp add: in_side_order_def get_side_def side_cmp_def)
  have l: "length (get_side True (book
     \<lparr>book = \<lparr>bids = [(100, 5), (99, 3)], asks = [(101, 4), (102, 2)], lastSeq = None\<rparr>,
      latency = [10], dropped = 0\<rparr>)) \<le> 50"
    by (simp add: get_side_def)
  from unknown_update_type [OF n, of 20 1 5 True "(100, 7)" None None
     "\<lparr>book = \<lparr>bids = [(100, 5), (99, 3)], asks = [(101, 4), (102, 2)], lastSeq = None\<rparr>,
      latency = [10], dropped = 0\<rparr>"] n o l
  show ?thesis by blast
qed

text \<open>
  C5 as stated fails: \<open>dropped\<close> is not incremented, and a side that a snapshot left out
  of order is put in order by the message.
\<close>

theorem unknown_update_type_counterexample:
  "dropped (apply_last 20 (Incremental 1 5 True 7 (100, 7) None None) initial) \<noteq> dropped initial + 1 \<and>
   book (apply_last 20 (Incremental 1 5 True 7 (100, 7) None None)
     \<lparr>book = \<lparr>bids = [(99, 3), (100, 5)], asks = [], lastSeq = None\<rparr>, latency = [], dropped = 0\<rparr>)
     \<noteq> \<lparr>bids = [(99, 3), (100, 5)], asks = [], lastSeq = None\<rparr>"
  by (simp add: setBook_incremental_def next_side_def update_arr_def sort_cmp_def side_cmp_def
      set_side_def get_side_def)

text \<open>
  C6 (amended): an Upsert (\<open>update_type\<close> 0 or 2) with quantity 0 at price \<open>p\<close> is stored
  like any other quantity and is not a removal: on a side that held fewer than 50
  levels, the level \<open>(p, 0)\<close> is on that side afterwards.
\<close>

theorem upsert_zero_quantity_kept:
  assumes "ut = 0 \<or> ut = 2" and "length (get_side isb (book st)) < 50"
  shows "(p, 0) \<in> set (get_side isb (book (apply_last now (Incremental iid ts isb ut (p, 0) gts sq) st)))"
proof -
  let ?arr = "update_arr ut (p, 0) (get_side isb (book st))"
  from update_arr_upsert_mem [OF assms(1), of "(p, 0)" "get_side isb (book st)"] assms(2)
  have "(p, 0) \<in> set ?arr" and "length ?arr \<le> 50" by simp_all
  then have "(p, 0) \<in> set (next_side isb ut (p, 0) (get_side isb (book st)))"
    by (simp add: next_side_def set_sort_cmp length_sort_cmp)
  then show ?thesis by (simp add: setBook_incremental_def)
qed

theorem upsert_zero_quantity_kept_witness:
  "((0::int) = 0 \<or> (0::int) = 2) \<and> length (get_side True (book initial)) < 50 \<and>
   (100, 0) \<in> set (get_side True (book (apply_last 20 (Incremental 1 5 True 0 (100, 0) None None) initial)))"
proof -
  have l: "length (get_side True (book initial)) < 50"
    by (simp add: get_side_def initial_def)
  from upsert_zero_quantity_kept [of 0 True initial 100 20 1 5 None None] l
  show ?thesis by simp
qed

text \<open>C6 as stated fails: on the empty book the upsert of quantity 0 leaves a level at 100.\<close>

theorem upsert_zero_quantity_counterexample:
  "bids (book (apply_last 20 (Incremental 1 5 True 0 (100, 0) None None) initial)) = [(100, 0)]"
  by (simp add: setBook_incremental_def next_side_def update_arr_def sort_cmp_def
      set_side_def get_side_def initial_def)

text \<open>
  C9 (amended): Upsert of \<open>(p, q)\<close> then Remove of \<open>p\<close> on an empty side gives an empty
  side. Remove of a price that the named side does not hold leaves the book unchanged
  when that side is in side order and holds at most 50 levels. Remove never changes
  \<open>dropped\<close>, whatever the state and whether or not the price is held.
\<close>

theorem upsert_then_remove:
  "((ut = 0 \<or> ut = 2) \<and> get_side isb (book st) = [] \<longrightarrow>
      get_side isb (book (apply_last nr (Incremental ir tr isb 1 (p, qr) gr sr)
                           (apply_last nu (Incremental iu tu isb ut (p, q) gu su) st))) = []) \<and>
   (in_side_order isb (get_side isb (book st)) \<and> length (get_side isb (book st)) \<le> 50 \<and>
    p \<notin> fst ` set (get_side isb (book st)) \<longrightarrow>
      book (apply_last now (Incremental iid ts isb 1 (p, q) gts sq) st) = book st) \<and>
   dropped (apply_last now (Incremental iid ts isb 1 (p, q) gts sq) st) = dropped st"
proof (intro conjI impI)
  assume a: "(ut = 0 \<or> ut = 2) \<and> get_side isb (book st) = []"
  then have "next_side isb ut (p, q) (get_side isb (book st)) = [(p, q)]"
    by (auto simp: next_side_def update_arr_def sort_cmp_def)
  moreover have "next_side isb 1 (p, qr) [(p, q)] = []"
    by (simp add: next_side_def update_arr_def sort_cmp_def)
  ultimately show "get_side isb (book (apply_last nr (Incremental ir tr isb 1 (p, qr) gr sr)
                           (apply_last nu (Incremental iu tu isb ut (p, q) gu su) st))) = []"
    by (simp add: setBook_incremental_def)
next
  assume b: "in_side_order isb (get_side isb (book st)) \<and> length (get_side isb (book st)) \<le> 50 \<and>
    p \<notin> fst ` set (get_side isb (book st))"
  then have "next_side isb 1 (p, q) (get_side isb (book st)) = get_side isb (book st)"
    by (intro next_side_noop update_arr_remove_absent) simp_all
  then show "book (apply_last now (Incremental iid ts isb 1 (p, q) gts sq) st) = book st"
    by (simp add: setBook_incremental_def)
next
  show "dropped (apply_last now (Incremental iid ts isb 1 (p, q) gts sq) st) = dropped st"
    by simp
qed

theorem upsert_then_remove_witness:
  "((0::int) = 0 \<or> (0::int) = 2) \<and> get_side True (book initial) = [] \<and>
   get_side True (book (apply_last 30 (Incremental 1 6 True 1 (100, 0) None None)
                          (apply_last 20 (Incremental 1 5 True 0 (100, 5) None None) initial))) = [] \<and>
   in_side_order True (get_side True (book
     \<lparr>book = \<lparr>bids = [(100, 5), (99, 3)], asks = [(101, 4), (102, 2)], lastSeq = None\<rparr>,
      latency = [10], dropped = 0\<rparr>)) \<and>
   length (get_side True (book
     \<lparr>book = \<lparr>bids = [(100, 5), (99, 3)], asks = [(101, 4), (102, 2)], lastSeq = None\<rparr>,
      latency = [10], dropped = 0\<rparr>)) \<le> 50 \<and>
   98 \<notin> fst ` set (get_side True (book
     \<lparr>book = \<lparr>bids = [(100, 5), (99, 3)], asks = [(101, 4), (102, 2)], lastSeq = None\<rparr>,
      latency = [10], dropped = 0\<rparr>)) \<and>
   book (apply_last 20 (Incremental 1 5 True 1 (98, 0) None None)
     \<lparr>book = \<lparr>bids = [(100, 5), (99, 3)], asks = [(101, 4), (102, 2)], lastSeq = None\<rparr>,
      latency = [10], dropped = 0\<rparr>)
     = book
     \<lparr>book = \<lparr>bids = [(100, 5), (99, 3)], asks = [(101, 4), (102, 2)], lastSeq = None\<rparr>,
      latency = [10], dropped = 0\<rparr> \<and>
   dropped (apply_last 20 (Incremental 1 5 True 1 (98, 0) None None)
     \<lparr>book = \<lparr>bids = [(100, 5), (99, 3)], asks = [(101, 4), (102, 2)], lastSeq = None\<rparr>,
      latency = [10], dropped = 0\<rparr>)
     = dropped
     \<lparr>book = \<lparr>bids = [(100, 5), (99, 3)], asks = [(101, 4), (102, 2)], lastSeq = None\<rparr>,
      latency = [10], dropped = 0\<rparr>"
proof -
  have u: "(0::int) = 0 \<or> (0::int) = 2"
    by simp
  have e: "get_side True (book initial) = []"
    by (simp add: get_side_def initial_def)
  have o: "in_side_order True (get_side True (book
     \<lparr>book = \<lparr>bids = [(100, 5), (99, 3)], asks = [(101, 4), (102, 2)], lastSeq = None\<rparr>,
      latency = [10], dropped = 0\<rparr>))"
    by (simp add: in_side_order_def get_side_def side_cmp_def)
  have l: "length (get_side True (book
     \<lparr>book = \<lparr>bids = [(100, 5), (99, 3)], asks = [(101, 4), (102, 2)], lastSeq = None\<rparr>,
      latency = [10], dropped = 0\<rparr>)) \<le> 50"
    by (simp add: get_side_def)
  have a: "98 \<notin> fst ` set (get_side True (book
     \<lparr>book = \<lparr>bids = [(100, 5), (99, 3)], asks = [(101, 4), (102, 2)], lastSeq = None\<rparr>,
      latency = [10], dropped = 0\<rparr>))"
    by (simp add: get_side_def)
  from upsert_then_remove [where ut = 0 and isb = True and st = initial and p = 100 and q = 5
      and qr = 0 and nu = 20 and iu = 1 and tu = 5 and gu = None and su = None
      and nr = 30 and ir = 1 and tr = 6 and gr = None and sr = None]
    upsert_then_remove [where isb = True and p = 98 and q = 0 and now = 20 and iid = 1
      and ts = 5 and gts = None and sq = None and st =
     "\<lparr>book = \<lparr>bids = [(100, 5), (99, 3)], asks = [(101, 4), (102, 2)], lastSeq = None\<rparr>,
      latency = [10], dropped = 0\<rparr>"] u e o l a
  show ?thesis by blast
qed

text \<open>
  C9 as stated fails for a state reached through a snapshot with bids in ascending
  order: Remove of the absent price 50 reorders the bids.
\<close>

theorem remove_absent_counterexample:
  "book (apply_last 20 (Incremental 1 5 True 1 (50, 0) None None)
          (apply_last 10 (Snapshot 1 0 [(99, 3), (100, 5)] [] None None) initial))
     \<noteq> book (apply_last 10 (Snapshot 1 0 [(99, 3), (100, 5)] [] None None) initial) \<and>
   50 \<notin> fst ` set (bids (book (apply_last 10 (Snapshot 1 0 [(99, 3), (100, 5)] [] None None) initial)))"
  by (simp add: setBook_incremental_def next_side_def update_arr_def sort_cmp_def side_cmp_def
      set_side_def get_side_def)

subsection \<open>Latency\<close>

text \<open>
  C8: after any sequence of applied messages the latency window holds the samples
  \<open>now - timestamp\<close> of the last 200 messages (all of them when fewer were applied), in
  arrival order, so at most 200. The callback of \<open>latencyMs\<close> gives 0 on the empty
  window and otherwise (for samples below \<open>2 ^ 44\<close> in magnitude) the mean of the window
  rounded to the nearest integer. The value the hook returns is not that of the
  current window: it is the value of the callback at the render for the latest
  message, on the window before the effect pushed that message's sample. After the
  first message, with the sample 10 in the window, the hook returns 0 and not 10.
\<close>

theorem latency_window_and_returned_mean:
  "latency (run initial evs) = drop (length evs - 200) (map (\<lambda>e. fst e - timestamp (snd e)) evs) \<and>
   length (latency (run initial evs)) \<le> 200 \<and>
   latencyMs [] = Finite 0 \<and>
   (arr \<noteq> [] \<and> length arr \<le> 200 \<and> list_all (\<lambda>x. \<bar>x\<bar> < 2 ^ 44) arr \<longrightarrow>
      latencyMs arr = Finite (of_int (round (real_of_int (sum_list arr) / real (length arr))))) \<and>
   fst (useOrderbook now (ms @ [m]) (run initial evs)) = run initial (evs @ [(now, m)]) \<and>
   ret_latencyMs (snd (useOrderbook now (ms @ [m]) (run initial evs)))
     = latencyMs (latency (run initial evs)) \<and>
   ret_latencyMs (snd (useOrderbook 10 [Incremental 1 0 True 0 (100, 5) None None] initial)) = Finite 0 \<and>
   latency (fst (useOrderbook 10 [Incremental 1 0 True 0 (100, 5) None None] initial)) = [10] \<and>
   latencyMs [10] = Finite 10"
proof -
  have w: "latency (run initial evs) = drop (length evs - 200) (map (\<lambda>e. fst e - timestamp (snd e)) evs)"
    using recordLatency_window [of "map (\<lambda>e. fst e - timestamp (snd e)) evs"]
    by (simp add: latency_run initial_def)
  have l: "length (latency (run initial evs)) \<le> 200"
    unfolding w by simp
  have z: "latencyMs [] = Finite 0"
    by (simp add: latencyMs_def)
  have c: "arr \<noteq> [] \<and> length arr \<le> 200 \<and> list_all (\<lambda>x. \<bar>x\<bar> < 2 ^ 44) arr \<longrightarrow>
      latencyMs arr = Finite (of_int (round (real_of_int (sum_list arr) / real (length arr))))"
    by (simp add: latencyMs_mean list_all_iff)
  have s: "fst (useOrderbook now (ms @ [m]) (run initial evs)) = run initial (evs @ [(now, m)])"
    by (simp add: useOrderbook_def useOrderbook_effect_def run_snoc Let_def)
  have r: "ret_latencyMs (snd (useOrderbook now (ms @ [m]) (run initial evs)))
     = latencyMs (latency (run initial evs))"
    by (simp add: useOrderbook_def Let_def)
  have e: "ret_latencyMs (snd (useOrderbook 10 [Incremental 1 0 True 0 (100, 5) None None] initial)) = Finite 0"
    "latency (fst (useOrderbook 10 [Incremental 1 0 True 0 (100, 5) None None] initial)) = [10]"
    "latencyMs [10] = Finite 10"
    by (rule example_returned_latencyMs)+
  from w l z c s r e show ?thesis by blast
qed

theorem latency_window_and_returned_mean_witness:
  "[10, 11] \<noteq> ([] :: int list) \<and> length [10, 11 :: int] \<le> 200 \<and>
   list_all (\<lambda>x. \<bar>x\<bar> < 2 ^ 44) [10, 11 :: int] \<and>
   latencyMs [10, 11] = Finite (of_int (round (real_of_int (sum_list [10, 11]) / real (length [10, 11 :: int]))))"
proof -
  have h: "[10, 11] \<noteq> ([] :: int list)" "length [10, 11 :: int] \<le> 200"
    "list_all (\<lambda>x. \<bar>x\<bar> < 2 ^ 44) [10, 11 :: int]"
    by simp_all
  from latency_window_and_returned_mean [where arr = "[10, 11]"] h show ?thesis by blast
qed

end
